theory Spec2Isabelle
  imports Complex_Main "HOL-Library.Word"
begin

unbundle bit_operations_syntax

section \<open>Data model of the conversion hook\<close>

text \<open>
  The development follows \<open>useWebmToGif\<close>: the hook that samples a video, keys
  the alpha channel of every sampled frame to a reserved colour and hands the frames to
  a GIF encoder. A JavaScript number is the real number it denotes, and each arithmetic
  operation of the hook rounds its exact result to the nearest double, as the section
  on numbers says; the bytes of a \<open>Uint8ClampedArray\<close> are 8-bit words, and the
  operands of the bit operators are 32-bit words. The constructors of \<open>message\<close>
  stand for the string literals and template literals of the hook, with the numbers
  that the templates print.
\<close>

type_synonym byte = "8 word"

datatype stage = Idle | Extracting | Encoding | Complete | Error

datatype error =
    CanvasContextFailed
  | ConversionCancelled
  | LoadFailed
  | FrameCanvasContextFailed
  | IndexSizeError

datatype message =
    NoMessage
  | LoadingVideo
  | ExtractingFrame nat nat
  | EncodingGif
  | EncodingPercent int
  | ConversionDone
  | ErrorMessage error

record ConversionOptions =
  fps :: real
  quality :: real
  width :: "nat option"
  height :: "nat option"
  transparentThreshold :: real

record ConversionProgress =
  stage :: stage
  progress :: real
  framesExtracted :: nat
  totalFrames :: nat
  message :: message

definition TRANSPARENT_COLOR :: "32 word" where
  "TRANSPARENT_COLOR = 0x00FF00"

section \<open>Numbers\<close>

text \<open>
  The arithmetic of doubles, on the reals they denote. \<open>roundEven\<close> rounds to the
  nearest integer, a tie to the even one. \<open>binade x\<close> is the exponent \<open>e\<close> with
  \<open>2 ^ e \<le> |x| < 2 ^ (e + 1)\<close>, and \<open>quantum x\<close> the distance between neighbouring
  doubles there, \<open>2 ^ (e - 52)\<close>. \<open>rnd x\<close> is the double nearest to \<open>x\<close>, a tie
  going to the even significand. The operators \<open>*\<close>, \<open>/\<close>, \<open>+\<close> and \<open>-\<close> round
  their exact result. Results beyond the largest double or below the smallest normal
  one, division by zero, NaN and the infinities are not covered. A loop counter, an
  array length and any other integer below \<open>2 ^ 53\<close> is a double.
\<close>

definition roundEven :: "real \<Rightarrow> int" where
  "roundEven x =
     (if x - of_int \<lfloor>x\<rfloor> < 1 / 2 then \<lfloor>x\<rfloor>
      else if 1 / 2 < x - of_int \<lfloor>x\<rfloor> then \<lfloor>x\<rfloor> + 1
      else if even \<lfloor>x\<rfloor> then \<lfloor>x\<rfloor> else \<lfloor>x\<rfloor> + 1)"

definition pow2 :: "int \<Rightarrow> real" where
  "pow2 k = (if 0 \<le> k then 2 ^ nat k else 1 / 2 ^ nat (- k))"

definition binade :: "real \<Rightarrow> int" where
  "binade x = \<lfloor>log 2 \<bar>x\<bar>\<rfloor>"

definition quantum :: "real \<Rightarrow> real" where
  "quantum x = pow2 (binade x - 52)"

definition rnd :: "real \<Rightarrow> real" where
  "rnd x = (if x = 0 then 0 else quantum x * of_int (roundEven (x / quantum x)))"

definition fmul :: "real \<Rightarrow> real \<Rightarrow> real" where
  "fmul a b = rnd (a * b)"

definition fdiv :: "real \<Rightarrow> real \<Rightarrow> real" where
  "fdiv a b = rnd (a / b)"

definition fadd :: "real \<Rightarrow> real \<Rightarrow> real" where
  "fadd a b = rnd (a + b)"

definition fsub :: "real \<Rightarrow> real \<Rightarrow> real" where
  "fsub a b = rnd (a - b)"

section \<open>Alpha-key mapping\<close>

text \<open>
  The three bytes written for a keyed pixel: \<open>(TRANSPARENT_COLOR >> 16) & 0xFF\<close>,
  \<open>(TRANSPARENT_COLOR >> 8) & 0xFF\<close> and \<open>TRANSPARENT_COLOR & 0xFF\<close>.
\<close>

definition keyR :: byte where
  "keyR = ucast (drop_bit 16 TRANSPARENT_COLOR AND 0xFF)"

definition keyG :: byte where
  "keyG = ucast (drop_bit 8 TRANSPARENT_COLOR AND 0xFF)"

definition keyB :: byte where
  "keyB = ucast (TRANSPARENT_COLOR AND 0xFF)"

text \<open>
  \<open>alpha < transparentThreshold\<close> for \<open>alpha = data[k]\<close>. A read past the end of a
  typed array is \<open>undefined\<close>, and the comparison is then false.
\<close>

definition alphaBelow :: "byte list \<Rightarrow> nat \<Rightarrow> real \<Rightarrow> bool" where
  "alphaBelow data k thr \<longleftrightarrow> k < length data \<and> real (unat (data ! k)) < thr"

text \<open>
  The inner loop \<open>for (let j = 0; j < data.length; j += 4)\<close> of \<open>extractFrames\<close>,
  started at index \<open>j\<close>. A write past the end of a typed array is ignored, as a list
  update past the end is.
\<close>

function alphaKeyLoop :: "real \<Rightarrow> nat \<Rightarrow> byte list \<Rightarrow> byte list" where
  "alphaKeyLoop thr j data =
     (if j < length data then
        alphaKeyLoop thr (j + 4)
          (if alphaBelow data (j + 3) thr
           then data[j := keyR, j + 1 := keyG, j + 2 := keyB, j + 3 := 255]
           else data)
      else data)"
  by pat_completeness auto
termination
  by (relation "measure (\<lambda>(thr, j, data). length data - j)") auto

declare alphaKeyLoop.simps [simp del]

definition alphaKeyMap :: "real \<Rightarrow> byte list \<Rightarrow> byte list" where
  "alphaKeyMap thr data = alphaKeyLoop thr 0 data"

section \<open>The hook's state and its environment\<close>

type_synonym blob = "byte list"

record FrameOptions =
  copy :: bool
  delay :: int
  dispose :: nat

text \<open>
  The encoder object, as far as the hook configures it: the options given to
  \<open>new GIF\<close> and the frames handed over by \<open>addFrame\<close>, in order.
\<close>

record GIF =
  workers :: nat
  gifQuality :: real
  gifWidth :: nat
  gifHeight :: nat
  transparent :: "32 word"
  gifFrames :: "(byte list \<times> FrameOptions) list"

text \<open>
  The state the hook keeps between renders: the two refs and the two pieces of React
  state. \<open>progressLog\<close> and \<open>seekLog\<close> are histories kept for the proofs: every value
  given to \<open>setProgress\<close>, and every value assigned to \<open>video.currentTime\<close>, oldest
  first.
\<close>

record hook =
  cancelledRef :: bool
  gifRef :: "GIF option"
  progressNow :: ConversionProgress
  isConverting :: bool
  progressLog :: "ConversionProgress list"
  seekLog :: "real list"

definition initialHook :: hook where
  "initialHook =
     \<lparr>cancelledRef = False, gifRef = None,
      progressNow = \<lparr>stage = Idle, progress = 0, framesExtracted = 0, totalFrames = 0,
                      message = NoMessage\<rparr>,
      isConverting = False, progressLog = [], seekLog = []\<rparr>"

text \<open>
  How an awaited step ends: it yields a value, it throws, or the awaited event never
  comes. The same type is the state of a promise: fulfilled, rejected, or pending.
\<close>

datatype 'a completion = Normal 'a | Throws error | Hangs

datatype wait = Fires | Fails | Never

text \<open>The points where \<open>convert\<close> is suspended before the encoder runs.\<close>

datatype suspension = LoadMetadata | CanPlayThrough | Seeked nat

text \<open>
  What happens after \<open>gif.render()\<close>: the encoder reports a fraction, the encoder
  delivers the finished blob, or the user calls \<open>cancel\<close>.
\<close>

datatype encoder_event = Progress real | Finished blob | CancelCalled

text \<open>
  Everything the hook does not decide itself: the video element and its decoder, the
  canvases, the encoder's events, and the moments at which the user calls \<open>cancel\<close>.
  \<open>raster env t w h\<close> is what \<open>getImageData\<close> returns after the seek to \<open>t\<close>,
  \<open>clearRect\<close> and \<open>drawImage\<close> on a canvas of \<open>w\<close> by \<open>h\<close> pixels;
  \<open>seekedFires env i\<close> says whether the \<open>seeked\<close> event of the \<open>i\<close>-th seek ever
  comes; \<open>cancelDuring env s\<close> says whether \<open>cancel\<close> is called while \<open>convert\<close>
  is suspended at \<open>s\<close>.
\<close>

record env =
  loadedMetadata :: wait
  canPlayThrough :: wait
  duration :: real
  videoWidth :: nat
  videoHeight :: nat
  canvasContext :: bool
  frameCanvasContext :: bool
  hardwareConcurrency :: nat
  seekedFires :: "nat \<Rightarrow> bool"
  raster :: "real \<Rightarrow> nat \<Rightarrow> nat \<Rightarrow> byte list"
  cancelDuring :: "suspension \<Rightarrow> bool"
  encoderEvents :: "encoder_event list"

section \<open>The hook's operations\<close>

definition setProgress :: "hook \<Rightarrow> ConversionProgress \<Rightarrow> hook" where
  "setProgress hk p = hk\<lparr>progressNow := p, progressLog := progressLog hk @ [p]\<rparr>"

text \<open>
  \<open>cancel\<close> sets the flag and, when \<open>gifRef.current\<close> is set, calls its
  \<open>abort\<close>. The second component says whether \<open>abort\<close> was called.
\<close>

definition cancel :: "hook \<Rightarrow> hook \<times> bool" where
  "cancel hk = (hk\<lparr>cancelledRef := True\<rparr>, gifRef hk \<noteq> None)"

text \<open>
  The hook while \<open>convert\<close> is suspended at \<open>s\<close>. An encoder left in
  \<open>gifRef\<close> by an earlier conversion has its listeners on that conversion's promise,
  so aborting it does nothing to this one.
\<close>

definition suspended :: "env \<Rightarrow> suspension \<Rightarrow> hook \<Rightarrow> hook" where
  "suspended env s hk = (if cancelDuring env s then fst (cancel hk) else hk)"

text \<open>
  \<open>Math.round\<close>: to the nearest integer, halves upwards. The result is exact: it is
  an integer, and the doubles beyond \<open>2 ^ 52\<close> are integers already.
\<close>

definition mathRound :: "real \<Rightarrow> int" where
  "mathRound x = \<lfloor>x + 1 / 2\<rfloor>"

text \<open>\<open>a || b\<close> for an optional number \<open>a\<close>: \<open>undefined\<close> and 0 give \<open>b\<close>.\<close>

definition orElse :: "nat option \<Rightarrow> nat \<Rightarrow> nat" where
  "orElse a b = (case a of None \<Rightarrow> b | Some v \<Rightarrow> if v = 0 then b else v)"

subsection \<open>Frame extraction\<close>

text \<open>
  One pass through the body of the sampling loop of \<open>extractFrames\<close>, at index
  \<open>i\<close>: the check of the flag, the seek and its wait, the raster, the alpha-key
  mapping, \<open>frames.push\<close> and the progress update. \<open>getImageData\<close> throws an
  \<open>IndexSizeError\<close> when the width or the height it is asked for is zero.
\<close>

definition extractBody ::
  "env \<Rightarrow> real \<Rightarrow> real \<Rightarrow> nat \<Rightarrow> nat \<Rightarrow> nat \<Rightarrow> nat \<Rightarrow> hook \<Rightarrow> byte list list
    \<Rightarrow> hook \<times> byte list list completion" where
  "extractBody env thr frameInterval nFrames w h i hk frames =
     (if cancelledRef hk then (hk, Throws ConversionCancelled)
      else
        let time = fmul (real i) frameInterval;
            hk1 = suspended env (Seeked i) (hk\<lparr>seekLog := seekLog hk @ [time]\<rparr>)
        in if \<not> seekedFires env i then (hk1, Hangs)
           else if w = 0 \<or> h = 0 then (hk1, Throws IndexSizeError)
           else
             let imageData = alphaKeyMap thr (raster env time w h);
                 hk2 = setProgress hk1
                   \<lparr>stage = Extracting,
                    progress = fmul (fdiv (real (i + 1)) (real nFrames)) 50,
                    framesExtracted = i + 1,
                    totalFrames = nFrames,
                    message = ExtractingFrame (i + 1) nFrames\<rparr>
             in (hk2, Normal (frames @ [imageData])))"

function extractLoop ::
  "env \<Rightarrow> real \<Rightarrow> real \<Rightarrow> nat \<Rightarrow> nat \<Rightarrow> nat \<Rightarrow> nat \<Rightarrow> hook \<Rightarrow> byte list list
    \<Rightarrow> hook \<times> byte list list completion" where
  "extractLoop env thr frameInterval nFrames w h i hk frames =
     (if i < nFrames then
        (case extractBody env thr frameInterval nFrames w h i hk frames of
           (hk', Normal frames') \<Rightarrow>
             extractLoop env thr frameInterval nFrames w h (i + 1) hk' frames'
         | (hk', Throws e) \<Rightarrow> (hk', Throws e)
         | (hk', Hangs) \<Rightarrow> (hk', Hangs))
      else (hk, Normal frames))"
  by pat_completeness auto
termination
  by (relation "measure (\<lambda>(env, thr, fi, nFrames, w, h, i, hk, frames). nFrames - i)") auto

declare extractLoop.simps [simp del]

text \<open>
  \<open>extractFrames\<close>. The frame count \<open>Math.floor(duration * fps)\<close> is only used as
  the bound of the loop and in the progress updates inside it, so a negative count is
  the same as 0.
\<close>

definition extractFrames ::
  "env \<Rightarrow> ConversionOptions \<Rightarrow> hook \<Rightarrow> hook \<times> (byte list list \<times> nat \<times> nat) completion" where
  "extractFrames env opts hk =
     (let frameInterval = fdiv 1 (fps opts);
          nFrames = nat \<lfloor>fmul (duration env) (fps opts)\<rfloor>;
          targetWidth = orElse (width opts) (videoWidth env);
          targetHeight = orElse (height opts) (videoHeight env)
      in if \<not> canvasContext env then (hk, Throws CanvasContextFailed)
         else
           (case extractLoop env (transparentThreshold opts) frameInterval nFrames
                   targetWidth targetHeight 0 hk [] of
              (hk', Normal frames) \<Rightarrow> (hk', Normal (frames, targetWidth, targetHeight))
            | (hk', Throws e) \<Rightarrow> (hk', Throws e)
            | (hk', Hangs) \<Rightarrow> (hk', Hangs)))"

subsection \<open>Conversion\<close>

definition encoderQuality :: "real \<Rightarrow> real" where
  "encoderQuality q = max 1 (min 30 (fsub 31 q))"

definition addFrame :: "GIF \<Rightarrow> byte list \<Rightarrow> FrameOptions \<Rightarrow> GIF" where
  "addFrame gif frame fo = gif\<lparr>gifFrames := gifFrames gif @ [(frame, fo)]\<rparr>"

text \<open>
  The body of the \<open>try\<close> block of \<open>convert\<close> up to the \<open>return\<close>: loading,
  extraction, the check of the flag, the configuration of the encoder and the
  submission of the frames. No step between the end of the extraction and the
  \<open>return\<close> is awaited, so \<open>cancel\<close> cannot run in between.
\<close>

definition convertTry :: "env \<Rightarrow> ConversionOptions \<Rightarrow> hook \<Rightarrow> hook \<times> GIF completion" where
  "convertTry env opts hk0 =
     (let hk1 = suspended env LoadMetadata hk0 in
      case loadedMetadata env of
        Never \<Rightarrow> (hk1, Hangs)
      | Fails \<Rightarrow> (hk1, Throws LoadFailed)
      | Fires \<Rightarrow>
          (let hk2 = suspended env CanPlayThrough hk1 in
           case canPlayThrough env of
             Never \<Rightarrow> (hk2, Hangs)
           | Fails \<Rightarrow> (hk2, Throws LoadFailed)
           | Fires \<Rightarrow>
               (case extractFrames env opts hk2 of
                  (hk3, Hangs) \<Rightarrow> (hk3, Hangs)
                | (hk3, Throws e) \<Rightarrow> (hk3, Throws e)
                | (hk3, Normal (frames, w, h)) \<Rightarrow>
                    if cancelledRef hk3 then (hk3, Throws ConversionCancelled)
                    else
                      let hk4 = setProgress hk3
                            \<lparr>stage = Encoding, progress = 50,
                             framesExtracted = length frames, totalFrames = length frames,
                             message = EncodingGif\<rparr>;
                          gif = \<lparr>workers = (if hardwareConcurrency env = 0 then 4
                                            else hardwareConcurrency env),
                                 gifQuality = encoderQuality (quality opts),
                                 gifWidth = w, gifHeight = h,
                                 transparent = TRANSPARENT_COLOR, gifFrames = []\<rparr>;
                          hk5 = hk4\<lparr>gifRef := Some gif\<rparr>
                      in if \<not> frameCanvasContext env
                         then (hk5, Throws FrameCanvasContextFailed)
                         else
                           let d = mathRound (fdiv 1000 (fps opts));
                               gif' = foldl (\<lambda>g frame. addFrame g frame
                                               \<lparr>copy = True, delay = d, dispose = 2\<rparr>)
                                        gif frames
                           in (hk5\<lparr>gifRef := Some gif'\<rparr>, Normal gif'))))"

text \<open>A promise settles once: later calls of \<open>resolve\<close> and \<open>reject\<close> do nothing.\<close>

definition settle :: "'a completion \<Rightarrow> 'a completion \<Rightarrow> 'a completion" where
  "settle p r = (case p of Hangs \<Rightarrow> r | _ \<Rightarrow> p)"

text \<open>
  The listeners registered on the encoder, for \<open>n\<close> frames, acting on the hook and on
  the promise that \<open>convert\<close> returns. \<open>cancel\<close> calls \<open>abort\<close> on the encoder,
  the encoder emits \<open>abort\<close>, and the \<open>abort\<close> listener rejects the promise.
\<close>

fun onEvent :: "nat \<Rightarrow> hook \<times> blob completion \<Rightarrow> encoder_event \<Rightarrow> hook \<times> blob completion" where
  "onEvent n (hk, p) (Progress q) =
     (setProgress hk
        \<lparr>stage = Encoding, progress = fadd 50 (fmul q 50), framesExtracted = n,
         totalFrames = n, message = EncodingPercent (mathRound (fmul q 100))\<rparr>, p)"
| "onEvent n (hk, p) (Finished b) =
     ((setProgress hk
         \<lparr>stage = Complete, progress = 100, framesExtracted = n, totalFrames = n,
          message = ConversionDone\<rparr>)\<lparr>isConverting := False, gifRef := None\<rparr>,
      settle p (Normal b))"
| "onEvent n (hk, p) CancelCalled =
     (case cancel hk of
        (hk', aborted) \<Rightarrow> (hk', if aborted then settle p (Throws ConversionCancelled) else p))"

text \<open>
  \<open>convertStart\<close> is the part of \<open>convert\<close> before the \<open>try\<close> block: the flag is
  cleared, \<open>isConverting\<close> is set and the first progress state is written.

  \<open>convert\<close>. A throw inside the \<open>try\<close> block runs the \<open>catch\<close> block, which
  writes the error state and throws again. The promise of the encoding is returned
  without being awaited, so the \<open>try\<close> block has been left when it settles and the
  \<open>catch\<close> block does not see its rejection: the result of \<open>convert\<close> then is
  whatever that promise settles to.
\<close>

definition convertStart :: "hook \<Rightarrow> hook" where
  "convertStart hk =
     setProgress (hk\<lparr>cancelledRef := False, isConverting := True\<rparr>)
       \<lparr>stage = Extracting, progress = 0, framesExtracted = 0, totalFrames = 0,
        message = LoadingVideo\<rparr>"

definition convert :: "env \<Rightarrow> ConversionOptions \<Rightarrow> hook \<Rightarrow> hook \<times> blob completion" where
  "convert env opts hk =
     (let hk0 = convertStart hk
      in case convertTry env opts hk0 of
           (hk1, Throws e) \<Rightarrow>
             ((setProgress hk1
                 \<lparr>stage = Error, progress = 0, framesExtracted = 0, totalFrames = 0,
                  message = ErrorMessage e\<rparr>)\<lparr>isConverting := False\<rparr>,
              Throws e)
         | (hk1, Hangs) \<Rightarrow> (hk1, Hangs)
         | (hk1, Normal gif) \<Rightarrow>
             foldl (onEvent (length (gifFrames gif))) (hk1, Hangs) (encoderEvents env))"

section \<open>Reading pixels\<close>

text \<open>
  Pixel \<open>p\<close> of a raster occupies the four bytes from index \<open>4 * p\<close>: red, green,
  blue, alpha.
\<close>

definition pixelAlpha :: "byte list \<Rightarrow> nat \<Rightarrow> byte" where
  "pixelAlpha data p = data ! (4 * p + 3)"

definition pixelRGB :: "byte list \<Rightarrow> nat \<Rightarrow> byte \<times> byte \<times> byte" where
  "pixelRGB data p = (data ! (4 * p), data ! (4 * p + 1), data ! (4 * p + 2))"

section \<open>Notions used in the statements\<close>

text \<open>
  The progress update after frame \<open>i\<close> of \<open>n\<close>, the frame kept for index \<open>i\<close>, and
  the hook after the seek of index \<open>i\<close> and its wait: the three parts of the body of
  the sampling loop.
\<close>

definition extractingAt :: "nat \<Rightarrow> nat \<Rightarrow> ConversionProgress" where
  "extractingAt n i =
     \<lparr>stage = Extracting, progress = fmul (fdiv (real (i + 1)) (real n)) 50,
      framesExtracted = i + 1, totalFrames = n, message = ExtractingFrame (i + 1) n\<rparr>"

definition sampledAt :: "env \<Rightarrow> real \<Rightarrow> real \<Rightarrow> nat \<Rightarrow> nat \<Rightarrow> nat \<Rightarrow> byte list" where
  "sampledAt env thr fi w h i = alphaKeyMap thr (raster env (fmul (real i) fi) w h)"

definition seeking :: "env \<Rightarrow> real \<Rightarrow> nat \<Rightarrow> hook \<Rightarrow> hook" where
  "seeking env fi i hk =
     suspended env (Seeked i) (hk\<lparr>seekLog := seekLog hk @ [fmul (real i) fi]\<rparr>)"

text \<open>
  The hook once both loading waits are over, the progress state written when the
  encoding starts, and the encoder as \<open>convert\<close> has configured it for the frames
  \<open>fs\<close>.
\<close>

definition loaded :: "env \<Rightarrow> hook \<Rightarrow> hook" where
  "loaded env hk = suspended env CanPlayThrough (suspended env LoadMetadata hk)"

definition encodingStarted :: "nat \<Rightarrow> ConversionProgress" where
  "encodingStarted n =
     \<lparr>stage = Encoding, progress = 50, framesExtracted = n, totalFrames = n,
      message = EncodingGif\<rparr>"

definition configured :: "env \<Rightarrow> ConversionOptions \<Rightarrow> nat \<Rightarrow> nat \<Rightarrow> byte list list \<Rightarrow> GIF" where
  "configured env opts w h fs =
     \<lparr>workers = (if hardwareConcurrency env = 0 then 4 else hardwareConcurrency env),
      gifQuality = encoderQuality (quality opts), gifWidth = w, gifHeight = h,
      transparent = TRANSPARENT_COLOR,
      gifFrames = map (\<lambda>f. (f, \<lparr>copy = True, delay = mathRound (fdiv 1000 (fps opts)),
                                  dispose = 2\<rparr>)) fs\<rparr>"

text \<open>
  The order of the stages: \<open>idle\<close>, then \<open>extracting\<close>, then \<open>encoding\<close>, then one
  of \<open>complete\<close> and \<open>error\<close>. \<open>stageLe a b\<close> says that \<open>b\<close> is \<open>a\<close> or comes later;
  \<open>complete\<close> and \<open>error\<close> are both last and neither follows the other.
\<close>

fun stageRank :: "stage \<Rightarrow> nat" where
  "stageRank Idle = 0"
| "stageRank Extracting = 1"
| "stageRank Encoding = 2"
| "stageRank Complete = 3"
| "stageRank Error = 3"

definition stageLe :: "stage \<Rightarrow> stage \<Rightarrow> bool" where
  "stageLe a b \<longleftrightarrow> a = b \<or> stageRank a < stageRank b"

text \<open>The stage an encoder event makes the hook write, if any.\<close>

fun eventStage :: "encoder_event \<Rightarrow> stage list" where
  "eventStage (Progress q) = [Encoding]"
| "eventStage (Finished b) = [Complete]"
| "eventStage CancelCalled = []"

fun isProgress :: "encoder_event \<Rightarrow> bool" where
  "isProgress (Progress q) = True"
| "isProgress e = False"


text \<open>
  The encoder reports no progress after it has delivered the finished blob: the order
  in which the encoder emits its events.
\<close>

fun finishedLast :: "encoder_event list \<Rightarrow> bool" where
  "finishedLast [] = True"
| "finishedLast (Finished b # evs) = list_all (\<lambda>e. \<not> isProgress e) evs"
| "finishedLast (e # evs) = finishedLast evs"

text \<open>
  A video of half a second whose one pixel is (10, 20, 30) with alpha 200, sampled at
  4 frames per second, with nobody cancelling; the same conversion cancelled during the
  first seek; the same conversion cancelled while the encoder runs; and a file of the
  same length with no video track, so that the canvas is empty, cancelled during the
  first seek.
\<close>

definition sampleOptions :: ConversionOptions where
  "sampleOptions =
     \<lparr>fps = 4, quality = 10, width = None, height = None, transparentThreshold = 128\<rparr>"

definition sampleVideo :: env where
  "sampleVideo =
     \<lparr>loadedMetadata = Fires, canPlayThrough = Fires, duration = 1 / 2,
      videoWidth = 1, videoHeight = 1, canvasContext = True, frameCanvasContext = True,
      hardwareConcurrency = 4, seekedFires = (\<lambda>i. True),
      raster = (\<lambda>t w h. [10, 20, 30, 200]),
      cancelDuring = (\<lambda>s. False),
      encoderEvents = [Progress (1 / 2), Finished [71, 73, 70]]\<rparr>"

definition cancelledWhileSeeking :: env where
  "cancelledWhileSeeking = sampleVideo\<lparr>cancelDuring := (\<lambda>s. s = Seeked 0)\<rparr>"

definition cancelledWhileEncoding :: env where
  "cancelledWhileEncoding = sampleVideo\<lparr>encoderEvents := [Progress (1 / 2), CancelCalled]\<rparr>"

definition audioOnly :: env where
  "audioOnly =
     sampleVideo\<lparr>videoWidth := 0, videoHeight := 0, raster := (\<lambda>t w h. []),
                 cancelDuring := (\<lambda>s. s = Seeked 0)\<rparr>"

section \<open>Properties of the alpha-key mapping\<close>

lemma key_bytes: "keyR = 0" "keyG = 255" "keyB = 0"
  by (simp_all add: keyR_def keyG_def keyB_def TRANSPARENT_COLOR_def)

lemma alphaKeyLoop_length: "length (alphaKeyLoop thr j d) = length d"
proof (induction thr j d rule: alphaKeyLoop.induct)
  case (1 thr j d)
  show ?case
    using 1 by (subst alphaKeyLoop.simps) simp
qed

lemma pixel_base:
  assumes "4 dvd (j::nat)" "j \<le> i" "i < j + 4"
  shows "4 * (i div 4) = j"
  using assms by (elim dvdE) auto

lemma pixel_later:
  assumes "4 dvd (j::nat)" "j + 4 \<le> i"
  shows "j + 4 \<le> 4 * (i div 4)"
  using assms by presburger

text \<open>
  What the loop started at a pixel boundary \<open>j\<close> leaves at index \<open>i\<close>: bytes before
  \<open>j\<close> and bytes of pixels whose alpha is not below the threshold are untouched, the
  other pixels hold the key colour and alpha 255.
\<close>

lemma alphaKeyLoop_nth:
  "4 dvd j \<Longrightarrow> i < length d \<Longrightarrow>
   alphaKeyLoop thr j d ! i =
     (if j \<le> i \<and> alphaBelow d (4 * (i div 4) + 3) thr
      then [keyR, keyG, keyB, 255] ! (i mod 4) else d ! i)"
proof (induction thr j d rule: alphaKeyLoop.induct)
  case (1 thr j d)
  let ?d' = "if alphaBelow d (j + 3) thr
             then d[j := keyR, j + 1 := keyG, j + 2 := keyB, j + 3 := 255] else d"
  have len: "length ?d' = length d" by simp
  show ?case
  proof (cases "j < length d")
    case False
    then show ?thesis using 1(3) by (subst alphaKeyLoop.simps) simp
  next
    case True
    have unfold: "alphaKeyLoop thr j d = alphaKeyLoop thr (j + 4) ?d'"
      using True by (subst alphaKeyLoop.simps) simp
    have dvd': "4 dvd j + 4" using 1(2) by simp
    have IH: "alphaKeyLoop thr (j + 4) ?d' ! i =
        (if j + 4 \<le> i \<and> alphaBelow ?d' (4 * (i div 4) + 3) thr
         then [keyR, keyG, keyB, 255] ! (i mod 4) else ?d' ! i)"
      using 1(1)[OF True dvd'] 1(3) len by simp
    consider (before) "i < j" | (here) "j \<le> i" "i < j + 4" | (after) "j + 4 \<le> i"
      by linarith
    then show ?thesis
    proof cases
      case before
      then show ?thesis unfolding unfold IH by simp
    next
      case here
      have base: "4 * (i div 4) = j" using pixel_base[OF 1(2) here] .
      have m: "i mod 4 = i - j" using base by (metis add_diff_cancel_left' mult_div_mod_eq)
      from here have "i = j \<or> i = j + 1 \<or> i = j + 2 \<or> i = j + 3" by linarith
      then show ?thesis
        unfolding unfold IH using here 1(3) base
        by (auto simp: m alphaBelow_def)
    next
      case after
      have q: "j + 4 \<le> 4 * (i div 4)" using pixel_later[OF 1(2) after] .
      have "alphaBelow ?d' (4 * (i div 4) + 3) thr = alphaBelow d (4 * (i div 4) + 3) thr"
        using q by (simp add: alphaBelow_def)
      moreover have "?d' ! i = d ! i" using after by simp
      ultimately show ?thesis unfolding unfold IH using after by simp
    qed
  qed
qed

lemma alphaKeyMap_nth:
  assumes "i < length d"
  shows "alphaKeyMap thr d ! i =
     (if alphaBelow d (4 * (i div 4) + 3) thr
      then [keyR, keyG, keyB, 255] ! (i mod 4) else d ! i)"
  using alphaKeyLoop_nth[of 0 i d thr] assms by (simp add: alphaKeyMap_def)

lemma alphaKeyMap_length: "length (alphaKeyMap thr d) = length d"
  by (simp add: alphaKeyMap_def alphaKeyLoop_length)

lemma alphaKeyMap_pixel:
  assumes "4 * p + 3 < length d" "c < 4"
  shows "alphaKeyMap thr d ! (4 * p + c) =
     (if real (unat (d ! (4 * p + 3))) < thr
      then [keyR, keyG, keyB, 255] ! c else d ! (4 * p + c))"
proof -
  have "(4 * p + c) div 4 = p" "(4 * p + c) mod 4 = c" using assms(2) by simp_all
  moreover have "4 * p + c < length d" using assms by simp
  ultimately show ?thesis
    using alphaKeyMap_nth[of "4 * p + c" d thr] assms(1) by (simp add: alphaBelow_def)
qed

text \<open>
  Claim C2, as stated: after the mapping every pixel has alpha 255, whether its alpha was
  below the threshold or not. The loop has no branch for a pixel at or above the
  threshold: with threshold 128 a pixel of alpha 200 keeps alpha 200.
\<close>

theorem alphaKey_alpha_counterexample:
  "pixelAlpha (alphaKeyMap 128 [10, 20, 30, 200]) 0 \<noteq> 255"
  by (simp add: pixelAlpha_def alphaKeyMap_def alphaBelow_def alphaKeyLoop.simps)

text \<open>
  Claim C2, amended: for every pixel \<open>p\<close> of a raster, a pixel whose alpha is below the
  threshold has alpha 255 after the mapping, and a pixel whose alpha is at or above the
  threshold keeps the alpha it had.
\<close>

theorem alphaKey_alpha:
  assumes "4 * p + 3 < length d"
  shows "(real (unat (pixelAlpha d p)) < thr \<longrightarrow> pixelAlpha (alphaKeyMap thr d) p = 255) \<and>
         (thr \<le> real (unat (pixelAlpha d p)) \<longrightarrow>
            pixelAlpha (alphaKeyMap thr d) p = pixelAlpha d p)"
  using alphaKeyMap_pixel[OF assms, of 3 thr] by (simp add: pixelAlpha_def)

theorem alphaKey_alpha_witness:
  "4 * 0 + 3 < length [10, 20, 30, 200 :: byte] \<and>
   real (unat (pixelAlpha [10, 20, 30, 200] 0)) < 201 \<and>
   pixelAlpha (alphaKeyMap 201 [10, 20, 30, 200]) 0 = 255 \<and>
   (128::real) \<le> real (unat (pixelAlpha [10, 20, 30, 200] 0)) \<and>
   pixelAlpha (alphaKeyMap 128 [10, 20, 30, 200]) 0 = pixelAlpha [10, 20, 30, 200] 0"
  using alphaKey_alpha[of 0 "[10, 20, 30, 200]" 201]
        alphaKey_alpha[of 0 "[10, 20, 30, 200]" 128]
  by (simp add: pixelAlpha_def)

text \<open>
  Claim C3: for every pixel \<open>p\<close> of a raster, if the input alpha is strictly below
  \<open>transparentThreshold\<close> the output RGB is the colour key, which is (0, 255, 0); if
  the input alpha is at or above the threshold, equality included, the output RGB is
  the input RGB.
\<close>

theorem alphaKey_rgb:
  assumes "4 * p + 3 < length d"
  shows "(real (unat (pixelAlpha d p)) < thr \<longrightarrow>
            pixelRGB (alphaKeyMap thr d) p = (keyR, keyG, keyB) \<and>
            (keyR, keyG, keyB) = (0, 255, 0)) \<and>
         (thr \<le> real (unat (pixelAlpha d p)) \<longrightarrow>
            pixelRGB (alphaKeyMap thr d) p = pixelRGB d p)"
  using alphaKeyMap_pixel[OF assms, of 0 thr] alphaKeyMap_pixel[OF assms, of 1 thr]
        alphaKeyMap_pixel[OF assms, of 2 thr]
  by (simp add: pixelAlpha_def pixelRGB_def key_bytes)

theorem alphaKey_rgb_witness:
  "4 * 0 + 3 < length [10, 20, 30, 128 :: byte] \<and>
   real (unat (pixelAlpha [10, 20, 30, 128] 0)) < 129 \<and>
   pixelRGB (alphaKeyMap 129 [10, 20, 30, 128]) 0 = (0, 255, 0) \<and>
   (128::real) \<le> real (unat (pixelAlpha [10, 20, 30, 128] 0)) \<and>
   pixelRGB (alphaKeyMap 128 [10, 20, 30, 128]) 0 = (10, 20, 30)"
  using alphaKey_rgb[of 0 "[10, 20, 30, 128]" 129]
        alphaKey_rgb[of 0 "[10, 20, 30, 128]" 128]
  by (simp add: pixelAlpha_def pixelRGB_def)

text \<open>
  Claim C4: the mapping is idempotent. For every raster and every threshold (those in
  the range 0 to 255 among them), mapping an already mapped raster again with the same
  threshold gives the once-mapped raster.
\<close>

theorem alphaKey_idempotent:
  "alphaKeyMap thr (alphaKeyMap thr d) = alphaKeyMap thr d"
proof (rule nth_equalityI)
  show "length (alphaKeyMap thr (alphaKeyMap thr d)) = length (alphaKeyMap thr d)"
    by (simp add: alphaKeyMap_length)
next
  fix i assume "i < length (alphaKeyMap thr (alphaKeyMap thr d))"
  then have i: "i < length d" by (simp add: alphaKeyMap_length)
  let ?q = "4 * (i div 4) + 3"
  have q: "4 * (?q div 4) + 3 = ?q" by simp
  have keep: "alphaBelow (alphaKeyMap thr d) ?q thr \<Longrightarrow> \<not> alphaBelow d ?q thr \<Longrightarrow> False"
  proof -
    assume a: "alphaBelow (alphaKeyMap thr d) ?q thr" and b: "\<not> alphaBelow d ?q thr"
    from a have lt: "?q < length d" by (simp add: alphaBelow_def alphaKeyMap_length)
    have "alphaKeyMap thr d ! ?q = d ! ?q"
      using alphaKeyMap_nth[OF lt, of thr] b unfolding q by simp
    with a b lt show False by (simp add: alphaBelow_def alphaKeyMap_length)
  qed
  show "alphaKeyMap thr (alphaKeyMap thr d) ! i = alphaKeyMap thr d ! i"
    using alphaKeyMap_nth[of i "alphaKeyMap thr d" thr] alphaKeyMap_nth[OF i, of thr] i keep
    by (auto simp: alphaKeyMap_length)
qed

section \<open>Rounding to a double\<close>

lemma roundEven_error: "\<bar>of_int (roundEven x) - x\<bar> \<le> 1 / 2"
proof -
  have "of_int \<lfloor>x\<rfloor> \<le> x" "x < of_int \<lfloor>x\<rfloor> + 1" by linarith+
  then show ?thesis unfolding roundEven_def by (auto simp: abs_le_iff)
qed

lemma roundEven_of_int: "roundEven (of_int m) = m"
  by (simp add: roundEven_def)

lemma pow2_powr: "pow2 k = 2 powr of_int k"
proof (cases "0 \<le> k")
  case True
  then have "2 powr of_int k = (2::real) powr real (nat k)" by simp
  also have "\<dots> = 2 ^ nat k" by (rule powr_realpow) simp
  finally show ?thesis using True by (simp add: pow2_def)
next
  case False
  then have "2 powr of_int k = (2::real) powr - real (nat (- k))" by simp
  also have "\<dots> = 1 / 2 powr real (nat (- k))" by (simp add: powr_minus divide_inverse)
  also have "2 powr real (nat (- k)) = (2::real) ^ nat (- k)" by (rule powr_realpow) simp
  finally show ?thesis using False by (simp add: pow2_def)
qed

lemma pow2_pos: "0 < pow2 k"
  by (simp add: pow2_powr)

lemma binade_eqI:
  assumes "pow2 k \<le> \<bar>x\<bar>" "\<bar>x\<bar> < pow2 (k + 1)"
  shows "binade x = k"
proof -
  have "0 < \<bar>x\<bar>" using assms(1) pow2_pos[of k] by linarith
  then show ?thesis
    unfolding binade_def using assms by (simp add: floor_log_eq_powr_iff pow2_powr)
qed

lemma binade_bounds:
  assumes "x \<noteq> 0"
  shows "pow2 (binade x) \<le> \<bar>x\<bar>" "\<bar>x\<bar> < pow2 (binade x + 1)"
proof -
  have "0 < \<bar>x\<bar>" using assms by simp
  from floor_log_eq_powr_iff[OF this, of 2 "binade x"]
  show "pow2 (binade x) \<le> \<bar>x\<bar>" "\<bar>x\<bar> < pow2 (binade x + 1)"
    by (simp_all add: binade_def pow2_powr)
qed

lemma quantum_pos: "0 < quantum x"
  by (simp add: quantum_def pow2_pos)

lemma quantum_le:
  assumes "x \<noteq> 0"
  shows "quantum x \<le> \<bar>x\<bar> / 2 ^ 52"
proof -
  have "quantum x = pow2 (binade x) / 2 ^ 52"
    by (simp add: quantum_def pow2_powr powr_diff)
  with binade_bounds(1)[OF assms] show ?thesis by (simp add: divide_right_mono)
qed

lemma rnd_error: "\<bar>rnd x - x\<bar> \<le> \<bar>x\<bar> / 2 ^ 53"
proof (cases "x = 0")
  case True
  then show ?thesis by (simp add: rnd_def)
next
  case False
  let ?q = "quantum x"
  have q: "0 < ?q" by (rule quantum_pos)
  have "rnd x - x = ?q * (of_int (roundEven (x / ?q)) - x / ?q)"
    using False q by (simp add: rnd_def algebra_simps)
  then have "\<bar>rnd x - x\<bar> = ?q * \<bar>of_int (roundEven (x / ?q)) - x / ?q\<bar>"
    using q by (simp add: abs_mult)
  also have "\<dots> \<le> ?q * (1 / 2)"
    using roundEven_error[of "x / ?q"] q by (intro mult_left_mono) simp_all
  also have "\<dots> \<le> (\<bar>x\<bar> / 2 ^ 52) * (1 / 2)"
    using quantum_le[OF False] by (intro mult_right_mono) simp_all
  also have "\<dots> = \<bar>x\<bar> / 2 ^ 53" by simp
  finally show ?thesis .
qed

lemma rnd_lower:
  assumes "0 \<le> x"
  shows "x - x / 2 ^ 53 \<le> rnd x"
  using rnd_error[of x] assms by (simp only: abs_le_iff abs_of_nonneg) linarith

lemma rnd_upper:
  assumes "0 \<le> x"
  shows "rnd x \<le> x + x / 2 ^ 53"
  using rnd_error[of x] assms by (simp only: abs_le_iff abs_of_nonneg) linarith

lemma rnd_pos:
  assumes "0 < x"
  shows "0 < rnd x"
proof -
  have "x / 2 ^ 53 < x" using assms by simp
  with rnd_lower[of x] assms show ?thesis by linarith
qed

lemma rnd_at:
  assumes "pow2 k \<le> \<bar>x\<bar>" "\<bar>x\<bar> < pow2 (k + 1)"
  shows "rnd x = pow2 (k - 52) * of_int (roundEven (x / pow2 (k - 52)))"
proof -
  have "x \<noteq> 0" using assms(1) pow2_pos[of k] by linarith
  then show ?thesis by (simp add: rnd_def quantum_def binade_eqI[OF assms])
qed

lemma rnd_of_int:
  assumes "\<bar>m\<bar> < 2 ^ 53"
  shows "rnd (of_int m) = of_int m"
proof (cases "m = 0")
  case True
  then show ?thesis by (simp add: rnd_def)
next
  case False
  let ?x = "of_int m :: real"
  let ?e = "binade ?x"
  have x: "?x \<noteq> 0" using False by simp
  have "pow2 ?e \<le> \<bar>?x\<bar>" by (rule binade_bounds(1)[OF x])
  also have "\<bar>?x\<bar> < 2 ^ 53" using assms by (metis of_int_abs of_int_less_numeral_power_cancel_iff)
  finally have "pow2 ?e < 2 ^ 53" .
  moreover have "(2::real) ^ 53 = pow2 53" by (simp add: pow2_def)
  ultimately have "(2::real) powr of_int ?e < 2 powr of_int 53" by (simp only: pow2_powr)
  then have "(of_int ?e :: real) < of_int 53" by (subst (asm) powr_less_cancel_iff) simp_all
  then have e: "?e \<le> 52" by linarith
  define d where "d = nat (52 - ?e)"
  have q: "quantum ?x = 1 / 2 ^ d"
  proof (cases "?e = 52")
    case True
    then show ?thesis by (simp add: quantum_def d_def pow2_def)
  next
    case False
    with e have "?e - 52 < 0" by simp
    moreover have "- (?e - 52) = 52 - ?e" by simp
    ultimately show ?thesis by (simp add: quantum_def d_def pow2_def)
  qed
  have "?x / quantum ?x = of_int (m * 2 ^ d)" by (simp add: q)
  then have "roundEven (?x / quantum ?x) = m * 2 ^ d" by (simp only: roundEven_of_int)
  then show ?thesis using x by (simp add: rnd_def q)
qed


lemma rnd_values:
  "rnd 0 = 0" "rnd 1 = 1" "rnd 2 = 2" "rnd 21 = 21" "rnd 25 = 25" "rnd 50 = 50"
  "rnd 75 = 75" "rnd 250 = 250" "rnd (1 / 2) = 1 / 2" "rnd (1 / 4) = 1 / 4"
proof -
  show "rnd 0 = 0" by (simp add: rnd_def)
  show "rnd 1 = 1" using rnd_of_int[of 1] by simp
  show "rnd 2 = 2" using rnd_of_int[of 2] by simp
  show "rnd 21 = 21" using rnd_of_int[of 21] by simp
  show "rnd 25 = 25" using rnd_of_int[of 25] by simp
  show "rnd 50 = 50" using rnd_of_int[of 50] by simp
  show "rnd 75 = 75" using rnd_of_int[of 75] by simp
  show "rnd 250 = 250" using rnd_of_int[of 250] by simp
  show "rnd (1 / 2) = 1 / 2"
    by (subst rnd_at[of "-1"]) (simp_all add: roundEven_def pow2_def)
  show "rnd (1 / 4) = 1 / 4"
    by (subst rnd_at[of "-2"]) (simp_all add: roundEven_def pow2_def)
qed

text \<open>
  A video of 0.3 seconds, a duration that as a double is a little less than three
  tenths, sampled at 10 frames per second: the product rounds to 3.
\<close>

lemma three_tenths_at_ten:
  "nat \<lfloor>fmul (5404319552844595 / 18014398509481984) 10\<rfloor> = 3"
proof -
  have "rnd (5404319552844595 / 18014398509481984 * 10) = 3"
    by (subst rnd_at[of 1]) (simp_all add: roundEven_def pow2_def)
  then show ?thesis by (simp add: fmul_def)
qed

lemma sample_times_increasing:
  assumes "0 < c" "n \<le> 2 ^ 52"
  shows "sorted_wrt (<) (map (\<lambda>i. fmul (real i) c) [0..<n])"
proof -
  have step: "fmul (real i) c < fmul (real j) c" if "i < j" "j < n" for i j
  proof -
    let ?u = "1 / 2 ^ 53 :: real"
    have ij: "real i + 1 \<le> real j" using that(1) by simp
    have "i + j < 2 ^ 53" using that assms(2) by simp
    then have "real (i + j) < 2 ^ 53" by (metis of_nat_less_numeral_power_cancel_iff)
    then have sum: "real i + real j < 2 ^ 53" by simp
    have "(real i + real j) * ?u < 1" using sum by simp
    then have "real i + real i * ?u < real j - real j * ?u"
      using ij by (simp add: algebra_simps)
    then have "c * (real i + real i * ?u) < c * (real j - real j * ?u)"
      using assms(1) by (rule mult_strict_left_mono)
    then have mid: "real i * c + real i * c / 2 ^ 53 < real j * c - real j * c / 2 ^ 53"
      by (simp add: algebra_simps)
    have "0 \<le> real i * c" "0 \<le> real j * c" using assms(1) by simp_all
    from rnd_upper[OF this(1)] rnd_lower[OF this(2)] mid
    show ?thesis unfolding fmul_def by linarith
  qed
  show ?thesis by (simp add: sorted_wrt_iff_nth_less step)
qed

section \<open>The sampling loop\<close>

lemma extractLoop_done:
  "\<not> i < n \<Longrightarrow> extractLoop env thr fi n w h i hk frames = (hk, Normal frames)"
  by (subst extractLoop.simps) simp

lemma extractLoop_step:
  "i < n \<Longrightarrow> extractLoop env thr fi n w h i hk frames =
     (if cancelledRef hk then (hk, Throws ConversionCancelled)
      else if \<not> seekedFires env i then (seeking env fi i hk, Hangs)
      else if w = 0 \<or> h = 0 then (seeking env fi i hk, Throws IndexSizeError)
      else extractLoop env thr fi n w h (i + 1)
             (setProgress (seeking env fi i hk) (extractingAt n i))
             (frames @ [sampledAt env thr fi w h i]))"
  by (subst extractLoop.simps)
     (simp add: extractBody_def Let_def extractingAt_def sampledAt_def seeking_def)

lemma seeking_fields:
  "seekLog (seeking env fi i hk) = seekLog hk @ [fmul (real i) fi]"
  "progressLog (seeking env fi i hk) = progressLog hk"
  "progressNow (seeking env fi i hk) = progressNow hk"
  "gifRef (seeking env fi i hk) = gifRef hk"
  "isConverting (seeking env fi i hk) = isConverting hk"
  "cancelledRef (seeking env fi i hk) = (cancelledRef hk \<or> cancelDuring env (Seeked i))"
  by (simp_all add: seeking_def suspended_def cancel_def)

lemma setProgress_fields:
  "seekLog (setProgress hk p) = seekLog hk"
  "progressLog (setProgress hk p) = progressLog hk @ [p]"
  "progressNow (setProgress hk p) = p"
  "gifRef (setProgress hk p) = gifRef hk"
  "isConverting (setProgress hk p) = isConverting hk"
  "cancelledRef (setProgress hk p) = cancelledRef hk"
  by (simp_all add: setProgress_def)

text \<open>
  What any run of the loop from index \<open>i\<close> leaves behind, however it ends: the
  progress states of the frames it captured, in order, and the seeks it made.
\<close>

lemma extractLoop_logs:
  assumes "extractLoop env thr fi n w h i hk frames = (hk', r)" "i \<le> n"
  shows "\<exists>m s. i \<le> m \<and> m \<le> n \<and> m \<le> s \<and> s \<le> m + 1 \<and> s \<le> n \<and>
     progressLog hk' = progressLog hk @ map (extractingAt n) [i..<m] \<and>
     seekLog hk' = seekLog hk @ map (\<lambda>k. fmul (real k) fi) [i..<s] \<and>
     gifRef hk' = gifRef hk \<and> isConverting hk' = isConverting hk \<and>
     (\<forall>fs. r = Normal fs \<longrightarrow> m = n \<and> fs = frames @ map (sampledAt env thr fi w h) [i..<n]) \<and>
     (\<forall>e. r = Throws e \<longrightarrow>
        e = ConversionCancelled \<and> cancelledRef hk' \<or> e = IndexSizeError \<and> (w = 0 \<or> h = 0))"
  using assms
proof (induction "n - i" arbitrary: i hk frames)
  case 0
  then have "\<not> i < n" by simp
  with 0 have "hk' = hk" "r = Normal frames" by (simp_all add: extractLoop_done)
  with 0 show ?case by (intro exI[of _ i]) simp
next
  case (Suc d)
  then have lt: "i < n" by simp
  note step = extractLoop_step[OF lt, of env thr fi w h hk frames]
  show ?case
  proof (cases "cancelledRef hk")
    case True
    with Suc.prems step have "hk' = hk" "r = Throws ConversionCancelled" by simp_all
    with True lt show ?thesis by (intro exI[of _ i]) simp
  next
    case nc: False
    show ?thesis
    proof (cases "seekedFires env i")
      case False
      with nc Suc.prems step have "hk' = seeking env fi i hk" "r = Hangs" by simp_all
      with lt show ?thesis
        by (intro exI[of _ i] exI[of _ "i + 1"]) (simp add: seeking_fields)
    next
      case fires: True
      show ?thesis
      proof (cases "w = 0 \<or> h = 0")
        case True
        with nc fires Suc.prems step
        have "hk' = seeking env fi i hk" "r = Throws IndexSizeError" by simp_all
        with lt True show ?thesis
          by (intro exI[of _ i] exI[of _ "i + 1"]) (simp add: seeking_fields)
      next
        case False
        let ?hk2 = "setProgress (seeking env fi i hk) (extractingAt n i)"
        let ?fr2 = "frames @ [sampledAt env thr fi w h i]"
        have run: "extractLoop env thr fi n w h (i + 1) ?hk2 ?fr2 = (hk', r)"
          using nc fires False Suc.prems step by simp
        have d: "d = n - (i + 1)" using Suc.hyps(2) by simp
        have le: "i + 1 \<le> n" using lt by simp
        from Suc.hyps(1)[OF d run le] obtain m s where
          ms: "i + 1 \<le> m" "m \<le> n" "m \<le> s" "s \<le> m + 1" "s \<le> n"
          and pl: "progressLog hk' = progressLog ?hk2 @ map (extractingAt n) [i + 1..<m]"
          and sl: "seekLog hk' = seekLog ?hk2 @ map (\<lambda>k. fmul (real k) fi) [i + 1..<s]"
          and gr: "gifRef hk' = gifRef ?hk2" "isConverting hk' = isConverting ?hk2"
          and nr: "\<forall>fs. r = Normal fs \<longrightarrow>
                     m = n \<and> fs = ?fr2 @ map (sampledAt env thr fi w h) [i + 1..<n]"
          and th: "\<forall>e. r = Throws e \<longrightarrow>
                     e = ConversionCancelled \<and> cancelledRef hk' \<or>
                     e = IndexSizeError \<and> (w = 0 \<or> h = 0)"
          by blast
        have um: "[i..<m] = i # [i + 1..<m]" using ms(1) by (simp add: upt_conv_Cons)
        have us: "[i..<s] = i # [i + 1..<s]" using ms(1,3) by (simp add: upt_conv_Cons)
        have un: "[i..<n] = i # [i + 1..<n]" using lt by (simp add: upt_conv_Cons)
        have "progressLog hk' = progressLog hk @ map (extractingAt n) [i..<m]"
          unfolding um pl by (simp add: setProgress_fields seeking_fields)
        moreover have "seekLog hk' = seekLog hk @ map (\<lambda>k. fmul (real k) fi) [i..<s]"
          unfolding us sl by (simp add: setProgress_fields seeking_fields)
        moreover have "gifRef hk' = gifRef hk" "isConverting hk' = isConverting hk"
          using gr by (simp_all add: setProgress_fields seeking_fields)
        moreover have "\<forall>fs. r = Normal fs \<longrightarrow>
            m = n \<and> fs = frames @ map (sampledAt env thr fi w h) [i..<n]"
          using nr unfolding un by simp
        moreover have "i \<le> m" using ms(1) by simp
        ultimately show ?thesis using ms(2-5) th by blast
      qed
    qed
  qed
qed

text \<open>
  A loop that nobody cancels, on a canvas that is not empty, with every seek answered,
  runs to its end.
\<close>

lemma extractLoop_runs:
  assumes "\<not> cancelledRef hk" "0 < w" "0 < h"
    and "\<forall>k. i \<le> k \<and> k < n \<longrightarrow> seekedFires env k \<and> \<not> cancelDuring env (Seeked k)"
  shows "\<exists>hk' fs. extractLoop env thr fi n w h i hk frames = (hk', Normal fs) \<and>
           \<not> cancelledRef hk'"
  using assms
proof (induction "n - i" arbitrary: i hk frames)
  case 0
  then have "\<not> i < n" by simp
  with 0 show ?case by (simp add: extractLoop_done)
next
  case (Suc d)
  then have lt: "i < n" by simp
  let ?hk2 = "setProgress (seeking env fi i hk) (extractingAt n i)"
  have here: "seekedFires env i" "\<not> cancelDuring env (Seeked i)"
    using Suc.prems(4) lt by auto
  have nc2: "\<not> cancelledRef ?hk2"
    using Suc.prems(1) here by (simp add: setProgress_fields seeking_fields)
  have d: "d = n - (i + 1)" using Suc.hyps(2) by simp
  have rest: "\<forall>k. i + 1 \<le> k \<and> k < n \<longrightarrow> seekedFires env k \<and> \<not> cancelDuring env (Seeked k)"
    using Suc.prems(4) by auto
  show ?case
    using Suc.hyps(1)[OF d nc2 Suc.prems(2,3) rest] Suc.prems(1,2,3) here
    by (simp add: extractLoop_step[OF lt])
qed


section \<open>Frame extraction\<close>

lemma extractFrames_logs:
  assumes "extractFrames env opts hk = (hk', r)"
  shows "\<exists>m s. m \<le> nat \<lfloor>fmul (duration env) (fps opts)\<rfloor> \<and> m \<le> s \<and> s \<le> m + 1 \<and>
     s \<le> nat \<lfloor>fmul (duration env) (fps opts)\<rfloor> \<and>
     progressLog hk' =
       progressLog hk @ map (extractingAt (nat \<lfloor>fmul (duration env) (fps opts)\<rfloor>)) [0..<m] \<and>
     seekLog hk' = seekLog hk @ map (\<lambda>k. fmul (real k) (fdiv 1 (fps opts))) [0..<s] \<and>
     gifRef hk' = gifRef hk \<and> isConverting hk' = isConverting hk \<and>
     (\<forall>fs w h. r = Normal (fs, w, h) \<longrightarrow>
        m = nat \<lfloor>fmul (duration env) (fps opts)\<rfloor> \<and>
        w = orElse (width opts) (videoWidth env) \<and>
        h = orElse (height opts) (videoHeight env) \<and>
        fs = map (sampledAt env (transparentThreshold opts) (fdiv 1 (fps opts)) w h)
               [0..<nat \<lfloor>fmul (duration env) (fps opts)\<rfloor>]) \<and>
     (\<forall>e. r = Throws e \<longrightarrow>
        e = CanvasContextFailed \<or> e = IndexSizeError \<or>
        e = ConversionCancelled \<and> cancelledRef hk')"
proof (cases "canvasContext env")
  case False
  with assms have "hk' = hk" "r = Throws CanvasContextFailed"
    by (simp_all add: extractFrames_def Let_def)
  then show ?thesis by (intro exI[of _ 0]) simp
next
  case True
  let ?n = "nat \<lfloor>fmul (duration env) (fps opts)\<rfloor>"
  let ?w = "orElse (width opts) (videoWidth env)"
  let ?h = "orElse (height opts) (videoHeight env)"
  let ?fi = "fdiv 1 (fps opts)"
  obtain hk2 r2 where
    loop: "extractLoop env (transparentThreshold opts) ?fi ?n ?w ?h 0 hk [] = (hk2, r2)"
    by (cases "extractLoop env (transparentThreshold opts) ?fi ?n ?w ?h 0 hk []")
  have res: "hk' = hk2"
    "r = (case r2 of Normal fs \<Rightarrow> Normal (fs, ?w, ?h) | Throws e \<Rightarrow> Throws e | Hangs \<Rightarrow> Hangs)"
    using assms True loop
    by (simp_all add: extractFrames_def Let_def split: completion.splits)
  from extractLoop_logs[OF loop] obtain m s where
    ms: "m \<le> ?n" "m \<le> s" "s \<le> m + 1" "s \<le> ?n"
    and pl: "progressLog hk2 = progressLog hk @ map (extractingAt ?n) [0..<m]"
    and sl: "seekLog hk2 = seekLog hk @ map (\<lambda>k. fmul (real k) ?fi) [0..<s]"
    and gr: "gifRef hk2 = gifRef hk" "isConverting hk2 = isConverting hk"
    and nr: "\<forall>fs. r2 = Normal fs \<longrightarrow> m = ?n \<and>
               fs = [] @ map (sampledAt env (transparentThreshold opts) ?fi ?w ?h) [0..<?n]"
    and th: "\<forall>e. r2 = Throws e \<longrightarrow>
               e = ConversionCancelled \<and> cancelledRef hk2 \<or>
               e = IndexSizeError \<and> (?w = 0 \<or> ?h = 0)"
    by auto
  have n': "\<forall>fs w h. r = Normal (fs, w, h) \<longrightarrow>
        m = ?n \<and> w = ?w \<and> h = ?h \<and>
        fs = map (sampledAt env (transparentThreshold opts) ?fi w h) [0..<?n]"
    using nr res(2) by (cases r2) auto
  have t': "\<forall>e. r = Throws e \<longrightarrow>
        e = CanvasContextFailed \<or> e = IndexSizeError \<or>
        e = ConversionCancelled \<and> cancelledRef hk'"
    using th res by (cases r2) auto
  show ?thesis
    using ms pl sl gr n' t' unfolding res(1) by blast
qed

lemma extractFrames_runs:
  assumes "canvasContext env" "\<not> cancelledRef hk"
    and "0 < orElse (width opts) (videoWidth env)" "0 < orElse (height opts) (videoHeight env)"
    and "\<forall>k. k < nat \<lfloor>fmul (duration env) (fps opts)\<rfloor> \<longrightarrow>
           seekedFires env k \<and> \<not> cancelDuring env (Seeked k)"
  shows "\<exists>hk' fs w h. extractFrames env opts hk = (hk', Normal (fs, w, h)) \<and>
           \<not> cancelledRef hk'"
proof -
  have "\<forall>k. 0 \<le> k \<and> k < nat \<lfloor>fmul (duration env) (fps opts)\<rfloor> \<longrightarrow>
           seekedFires env k \<and> \<not> cancelDuring env (Seeked k)"
    using assms(5) by simp
  from extractLoop_runs[OF assms(2,3,4) this] obtain hk' fs where
    "extractLoop env (transparentThreshold opts) (fdiv 1 (fps opts))
       (nat \<lfloor>fmul (duration env) (fps opts)\<rfloor>) (orElse (width opts) (videoWidth env))
       (orElse (height opts) (videoHeight env)) 0 hk [] = (hk', Normal fs)"
    "\<not> cancelledRef hk'"
    by blast
  then show ?thesis using assms(1) by (simp add: extractFrames_def Let_def)
qed

lemma frame_count_nonneg:
  assumes "1 \<le> f" "0 < d"
  shows "0 \<le> fmul d f"
proof -
  have "0 < d * f" using assms by simp
  from rnd_pos[OF this] show ?thesis by (simp add: fmul_def)
qed

lemma frame_interval_pos:
  assumes "1 \<le> f"
  shows "0 < fdiv 1 f"
proof -
  have "0 < 1 / f" using assms by simp
  from rnd_pos[OF this] show ?thesis by (simp add: fdiv_def)
qed

text \<open>
  Claim C1: for every \<open>fps\<close> of at least 1 (so for every valid \<open>fps\<close> from 1 to 30)
  and every positive duration, an extraction that gets its canvas context, has a canvas
  that is not empty, is not cancelled and has each of its seeks answered returns
  exactly \<open>Math.floor(duration * fps)\<close> frames, the product being the double the code
  computes; frame \<open>i\<close> is the keyed raster taken after the seek to the double
  \<open>i * (1 / fps)\<close>, the seeks are made in that order, and their timestamps are
  strictly increasing. The count is at most \<open>2 ^ 52\<close>, so that the loop counter is exact.
\<close>

theorem extractFrames_count:
  assumes "1 \<le> fps opts" "0 < duration env"
    and "nat \<lfloor>fmul (duration env) (fps opts)\<rfloor> \<le> 2 ^ 52"
    and "canvasContext env" "\<not> cancelledRef hk"
    and "0 < orElse (width opts) (videoWidth env)" "0 < orElse (height opts) (videoHeight env)"
    and "\<forall>k. k < nat \<lfloor>fmul (duration env) (fps opts)\<rfloor> \<longrightarrow>
           seekedFires env k \<and> \<not> cancelDuring env (Seeked k)"
  shows "\<exists>hk' frames w h.
     extractFrames env opts hk = (hk', Normal (frames, w, h)) \<and>
     int (length frames) = \<lfloor>fmul (duration env) (fps opts)\<rfloor> \<and>
     frames = map (\<lambda>i. alphaKeyMap (transparentThreshold opts)
                          (raster env (fmul (real i) (fdiv 1 (fps opts))) w h))
                [0..<length frames] \<and>
     seekLog hk' =
       seekLog hk @ map (\<lambda>i. fmul (real i) (fdiv 1 (fps opts))) [0..<length frames] \<and>
     sorted_wrt (<) (map (\<lambda>i. fmul (real i) (fdiv 1 (fps opts))) [0..<length frames])"
proof -
  let ?n = "nat \<lfloor>fmul (duration env) (fps opts)\<rfloor>"
  let ?fi = "fdiv 1 (fps opts)"
  from extractFrames_runs[OF assms(4,5,6,7,8)] obtain hk' fs w h where
    run: "extractFrames env opts hk = (hk', Normal (fs, w, h))" by blast
  from extractFrames_logs[OF run] obtain m s where
    ms: "m \<le> s" "s \<le> ?n"
    and sl: "seekLog hk' = seekLog hk @ map (\<lambda>k. fmul (real k) ?fi) [0..<s]"
    and nr: "m = ?n"
      "fs = map (sampledAt env (transparentThreshold opts) ?fi w h) [0..<?n]"
    by auto
  have len: "length fs = ?n" using nr(2) by simp
  have s: "s = ?n" using ms nr(1) by simp
  have nonneg: "0 \<le> fmul (duration env) (fps opts)"
    by (rule frame_count_nonneg[OF assms(1,2)])
  have "int (length fs) = \<lfloor>fmul (duration env) (fps opts)\<rfloor>" using len nonneg by simp
  moreover have "fs = map (\<lambda>i. alphaKeyMap (transparentThreshold opts)
                          (raster env (fmul (real i) ?fi) w h)) [0..<length fs]"
    using nr(2) unfolding len by (simp add: sampledAt_def)
  moreover have "seekLog hk' = seekLog hk @ map (\<lambda>i. fmul (real i) ?fi) [0..<length fs]"
    using sl s len by simp
  moreover have "sorted_wrt (<) (map (\<lambda>i. fmul (real i) ?fi) [0..<length fs])"
    unfolding len by (rule sample_times_increasing[OF frame_interval_pos[OF assms(1)] assms(3)])
  ultimately show ?thesis using run by blast
qed

lemma sampleVideo_fields:
  "duration sampleVideo = 1 / 2" "canvasContext sampleVideo" "frameCanvasContext sampleVideo"
  "loadedMetadata sampleVideo = Fires" "canPlayThrough sampleVideo = Fires"
  "seekedFires sampleVideo = (\<lambda>i. True)" "cancelDuring sampleVideo = (\<lambda>s. False)"
  "videoWidth sampleVideo = 1" "videoHeight sampleVideo = 1"
  "fps sampleOptions = 4" "width sampleOptions = None" "height sampleOptions = None"
  "\<not> cancelledRef initialHook" "seekLog initialHook = []" "progressLog initialHook = []"
  by (simp_all add: sampleVideo_def sampleOptions_def initialHook_def)

lemma sample_count: "nat \<lfloor>fmul (duration sampleVideo) (fps sampleOptions)\<rfloor> = 2"
  by (simp add: sampleVideo_fields fmul_def rnd_values)

theorem extractFrames_count_witness:
  "1 \<le> fps sampleOptions \<and> 0 < duration sampleVideo \<and>
   nat \<lfloor>fmul (duration sampleVideo) (fps sampleOptions)\<rfloor> \<le> 2 ^ 52 \<and>
   canvasContext sampleVideo \<and> \<not> cancelledRef initialHook \<and>
   0 < orElse (width sampleOptions) (videoWidth sampleVideo) \<and>
   0 < orElse (height sampleOptions) (videoHeight sampleVideo) \<and>
   (\<exists>hk' frames w h.
      extractFrames sampleVideo sampleOptions initialHook = (hk', Normal (frames, w, h)) \<and>
      int (length frames) = 2 \<and>
      seekLog hk' = [0, 1 / 4])"
proof -
  have h: "\<forall>k. k < nat \<lfloor>fmul (duration sampleVideo) (fps sampleOptions)\<rfloor> \<longrightarrow>
           seekedFires sampleVideo k \<and> \<not> cancelDuring sampleVideo (Seeked k)"
    by (simp add: sampleVideo_fields)
  have a: "1 \<le> fps sampleOptions" "0 < duration sampleVideo"
    "nat \<lfloor>fmul (duration sampleVideo) (fps sampleOptions)\<rfloor> \<le> 2 ^ 52"
    "canvasContext sampleVideo" "\<not> cancelledRef initialHook"
    "0 < orElse (width sampleOptions) (videoWidth sampleVideo)"
    "0 < orElse (height sampleOptions) (videoHeight sampleVideo)"
    by (simp_all add: sampleVideo_fields fmul_def rnd_values orElse_def)
  from extractFrames_count[OF a h] obtain hk' frames w h where
    r: "extractFrames sampleVideo sampleOptions initialHook = (hk', Normal (frames, w, h))"
    "int (length frames) = \<lfloor>fmul (duration sampleVideo) (fps sampleOptions)\<rfloor>"
    "seekLog hk' = seekLog initialHook @
        map (\<lambda>i. fmul (real i) (fdiv 1 (fps sampleOptions))) [0..<length frames]"
    by blast
  have c: "\<lfloor>fmul (duration sampleVideo) (fps sampleOptions)\<rfloor> = 2"
    by (simp add: sampleVideo_fields fmul_def rnd_values)
  from r(2) c have l: "length frames = 2" by simp
  have "[0..<2] = [0, 1]" by (simp add: upt_rec)
  with r(3) l have "seekLog hk' = [0, 1 / 4]"
    by (simp add: sampleVideo_fields fmul_def fdiv_def rnd_values)
  with r(1) l a show ?thesis by auto
qed

section \<open>Conversion\<close>

lemma suspended_fields:
  "seekLog (suspended env s hk) = seekLog hk"
  "progressLog (suspended env s hk) = progressLog hk"
  "progressNow (suspended env s hk) = progressNow hk"
  "gifRef (suspended env s hk) = gifRef hk"
  "isConverting (suspended env s hk) = isConverting hk"
  "cancelledRef (suspended env s hk) = (cancelledRef hk \<or> cancelDuring env s)"
  by (simp_all add: suspended_def cancel_def)

lemma foldl_addFrame:
  "foldl (\<lambda>g frame. addFrame g frame fo) gif fs =
     gif\<lparr>gifFrames := gifFrames gif @ map (\<lambda>f. (f, fo)) fs\<rparr>"
  by (induction fs arbitrary: gif) (simp_all add: addFrame_def)

lemma convertTry_loaded:
  assumes "loadedMetadata env = Fires" "canPlayThrough env = Fires"
  shows "convertTry env opts hk0 =
     (case extractFrames env opts (loaded env hk0) of
        (hk3, Hangs) \<Rightarrow> (hk3, Hangs)
      | (hk3, Throws e) \<Rightarrow> (hk3, Throws e)
      | (hk3, Normal (fs, w, h)) \<Rightarrow>
          if cancelledRef hk3 then (hk3, Throws ConversionCancelled)
          else if \<not> frameCanvasContext env
          then ((setProgress hk3 (encodingStarted (length fs)))
                  \<lparr>gifRef := Some (configured env opts w h [])\<rparr>,
                Throws FrameCanvasContextFailed)
          else ((setProgress hk3 (encodingStarted (length fs)))
                  \<lparr>gifRef := Some (configured env opts w h fs)\<rparr>,
                Normal (configured env opts w h fs)))"
  using assms
  by (simp add: convertTry_def Let_def loaded_def encodingStarted_def configured_def
        foldl_addFrame split: prod.splits completion.splits)

lemma convertTry_not_loaded:
  assumes "\<not> (loadedMetadata env = Fires \<and> canPlayThrough env = Fires)"
    and "convertTry env opts hk0 = (hk1, r)"
  shows "progressLog hk1 = progressLog hk0" "seekLog hk1 = seekLog hk0"
    "r = Hangs \<or> r = Throws LoadFailed" "isConverting hk1 = isConverting hk0"
  using assms
  by (auto simp: convertTry_def Let_def suspended_fields split: wait.splits)

lemma convertTry_Normal:
  assumes "convertTry env opts hk0 = (hk1, Normal gif)"
  shows "\<exists>hk3 fs w h.
     extractFrames env opts (loaded env hk0) = (hk3, Normal (fs, w, h)) \<and>
     \<not> cancelledRef hk3 \<and> gif = configured env opts w h fs \<and>
     hk1 = (setProgress hk3 (encodingStarted (length fs)))\<lparr>gifRef := Some gif\<rparr>"
proof -
  have l: "loadedMetadata env = Fires" "canPlayThrough env = Fires"
    using convertTry_not_loaded(3)[OF _ assms] by auto
  obtain hk3 r3 where e: "extractFrames env opts (loaded env hk0) = (hk3, r3)"
    by (cases "extractFrames env opts (loaded env hk0)")
  show ?thesis
    using assms e unfolding convertTry_loaded[OF l]
    by (cases r3) (auto split: if_splits)
qed

lemma convertTry_log:
  assumes "convertTry env opts hk0 = (hk1, r)"
  shows "\<exists>xs ys. progressLog hk1 = progressLog hk0 @ xs @ ys \<and>
           (\<forall>x\<in>set xs. stage x = Extracting) \<and> (\<forall>y\<in>set ys. stage y = Encoding)"
proof (cases "loadedMetadata env = Fires \<and> canPlayThrough env = Fires")
  case False
  from convertTry_not_loaded(1)[OF False assms] show ?thesis by simp
next
  case True
  then have l: "loadedMetadata env = Fires" "canPlayThrough env = Fires" by simp_all
  obtain hk3 r3 where e: "extractFrames env opts (loaded env hk0) = (hk3, r3)"
    by (cases "extractFrames env opts (loaded env hk0)")
  from extractFrames_logs[OF e] obtain m where
    pl: "progressLog hk3 = progressLog (loaded env hk0) @
           map (extractingAt (nat \<lfloor>fmul (duration env) (fps opts)\<rfloor>)) [0..<m]"
    by blast
  let ?xs = "map (extractingAt (nat \<lfloor>fmul (duration env) (fps opts)\<rfloor>)) [0..<m]"
  have xs: "\<forall>x\<in>set ?xs. stage x = Extracting" by (simp add: extractingAt_def)
  have p3: "progressLog hk3 = progressLog hk0 @ ?xs"
    using pl by (simp add: loaded_def suspended_fields)
  have "\<exists>ys. progressLog hk1 = progressLog hk3 @ ys \<and> (\<forall>y\<in>set ys. stage y = Encoding)"
    using assms e unfolding convertTry_loaded[OF l]
    by (cases r3) (auto simp: setProgress_fields encodingStarted_def split: if_splits)
  then obtain ys where "progressLog hk1 = progressLog hk3 @ ys" "\<forall>y\<in>set ys. stage y = Encoding"
    by blast
  with p3 xs show ?thesis by (intro exI[of _ ?xs] exI[of _ ys]) simp
qed

lemma onEvent_log:
  "\<exists>z. progressLog (fst (onEvent n s e)) = progressLog (fst s) @ z \<and>
        map stage z = eventStage e"
  by (cases s; cases e) (simp_all add: setProgress_def cancel_def)

lemma events_log:
  "\<exists>zs. progressLog (fst (foldl (onEvent n) s evs)) = progressLog (fst s) @ zs \<and>
         map stage zs = concat (map eventStage evs)"
proof (induction evs arbitrary: s)
  case Nil
  show ?case by simp
next
  case (Cons e evs)
  from onEvent_log[of n s e] obtain z where
    z: "progressLog (fst (onEvent n s e)) = progressLog (fst s) @ z" "map stage z = eventStage e"
    by blast
  from Cons[of "onEvent n s e"] obtain zs where
    zs: "progressLog (fst (foldl (onEvent n) (onEvent n s e) evs)) =
           progressLog (fst (onEvent n s e)) @ zs"
        "map stage zs = concat (map eventStage evs)"
    by blast
  show ?case using z zs by (intro exI[of _ "z @ zs"]) simp
qed

lemma quiet_stages:
  "list_all (\<lambda>e. \<not> isProgress e) evs \<Longrightarrow> set (concat (map eventStage evs)) \<subseteq> {Complete}"
proof (induction evs)
  case Nil
  show ?case by simp
next
  case (Cons e evs)
  then show ?case by (cases e) simp_all
qed

lemma stageLe_simps:
  "stageLe a a" "stageLe Idle Extracting" "stageLe Idle Encoding" "stageLe Idle Complete"
  "stageLe Idle Error" "stageLe Extracting Encoding" "stageLe Extracting Complete"
  "stageLe Extracting Error" "stageLe Encoding Complete" "stageLe Encoding Error"
  by (simp_all add: stageLe_def)

lemma constant_stages_sorted:
  "\<forall>x\<in>set xs. x = c \<Longrightarrow> sorted_wrt stageLe xs"
  by (induction xs) (auto simp: stageLe_def)

lemma finishedLast_stages:
  "finishedLast evs \<Longrightarrow>
     sorted_wrt stageLe (concat (map eventStage evs)) \<and>
     set (concat (map eventStage evs)) \<subseteq> {Encoding, Complete}"
proof (induction evs)
  case Nil
  show ?case by simp
next
  case (Cons e evs)
  show ?case
  proof (cases e)
    case (Progress q)
    with Cons show ?thesis by (auto simp: stageLe_simps)
  next
    case (Finished b)
    with Cons.prems have "set (concat (map eventStage evs)) \<subseteq> {Complete}"
      using quiet_stages by simp
    moreover from this have "sorted_wrt stageLe (concat (map eventStage evs))"
      by (intro constant_stages_sorted[of _ Complete]) blast
    ultimately show ?thesis using Finished by (auto simp: stageLe_simps)
  next
    case CancelCalled
    with Cons show ?thesis by simp
  qed
qed



section \<open>Cancellation\<close>


lemma convertStart_fields:
  "seekLog (convertStart hk) = seekLog hk"
  "progressLog (convertStart hk) =
     progressLog hk @ [\<lparr>stage = Extracting, progress = 0, framesExtracted = 0,
                         totalFrames = 0, message = LoadingVideo\<rparr>]"
  "gifRef (convertStart hk) = gifRef hk"
  "isConverting (convertStart hk)"
  "\<not> cancelledRef (convertStart hk)"
  by (simp_all add: convertStart_def setProgress_def)



lemmas sample_eval =
  convert_def convertTry_def convertStart_def extractFrames_def sampleVideo_def
  sampleOptions_def cancelledWhileSeeking_def cancelledWhileEncoding_def audioOnly_def
  initialHook_def Let_def orElse_def extractLoop.simps extractBody_def suspended_def
  setProgress_def alphaKeyMap_def alphaKeyLoop.simps alphaBelow_def addFrame_def settle_def
  cancel_def encoderQuality_def mathRound_def key_bytes fmul_def fdiv_def fadd_def fsub_def
  rnd_values





section \<open>Progress\<close>

text \<open>
  Claim C6: progress accounting. However the extraction ends, the progress states it
  has written are those of the frames it captured, in order: after frame \<open>i\<close>
  (counted from 0) the state has stage \<open>extracting\<close>, progress
  \<open>(i + 1) / totalFrames * 50\<close> as the code computes it in doubles and
  \<open>framesExtracted = i + 1\<close>; an extraction that returns has written one state for
  each of its frames. During encoding, a reported fraction \<open>p\<close> makes the progress
  state have stage \<open>encoding\<close> and progress \<open>50 + p * 50\<close>, again as computed in
  doubles, with both frame counts the number of frames given to the encoder.
\<close>

theorem progress_accounting:
  "(\<exists>m. m \<le> nat \<lfloor>fmul (duration env) (fps opts)\<rfloor> \<and>
      progressLog (fst (extractFrames env opts hk)) =
        progressLog hk @
        map (\<lambda>i. \<lparr>stage = Extracting,
                   progress = fmul (fdiv (real (i + 1)) (real (nat \<lfloor>fmul (duration env) (fps opts)\<rfloor>))) 50,
                   framesExtracted = i + 1,
                   totalFrames = nat \<lfloor>fmul (duration env) (fps opts)\<rfloor>,
                   message = ExtractingFrame (i + 1) (nat \<lfloor>fmul (duration env) (fps opts)\<rfloor>)\<rparr>)
          [0..<m] \<and>
      (\<forall>fs w h. snd (extractFrames env opts hk) = Normal (fs, w, h) \<longrightarrow> m = length fs)) \<and>
   (snd (convertTry env opts (convertStart hk)) = Normal gif \<and>
    encoderEvents env = evs @ [Progress p]
    \<longrightarrow> progressNow (fst (convert env opts hk)) =
          \<lparr>stage = Encoding, progress = fadd 50 (fmul p 50),
           framesExtracted = length (gifFrames gif), totalFrames = length (gifFrames gif),
           message = EncodingPercent (mathRound (fmul p 100))\<rparr>)"
proof (intro conjI impI)
  obtain hk' r where e: "extractFrames env opts hk = (hk', r)"
    by (cases "extractFrames env opts hk")
  let ?n = "nat \<lfloor>fmul (duration env) (fps opts)\<rfloor>"
  from extractFrames_logs[OF e] obtain m where
    m: "m \<le> ?n" "progressLog hk' = progressLog hk @ map (extractingAt ?n) [0..<m]"
    and nr: "\<forall>fs w h. r = Normal (fs, w, h) \<longrightarrow> m = ?n \<and>
        fs = map (sampledAt env (transparentThreshold opts) (fdiv 1 (fps opts)) w h) [0..<?n]"
    by blast
  have "\<forall>fs w h. r = Normal (fs, w, h) \<longrightarrow> m = length fs" using nr by auto
  with m e show "\<exists>m. m \<le> ?n \<and>
      progressLog (fst (extractFrames env opts hk)) =
        progressLog hk @
        map (\<lambda>i. \<lparr>stage = Extracting, progress = fmul (fdiv (real (i + 1)) (real ?n)) 50,
                   framesExtracted = i + 1, totalFrames = ?n,
                   message = ExtractingFrame (i + 1) ?n\<rparr>) [0..<m] \<and>
      (\<forall>fs w h. snd (extractFrames env opts hk) = Normal (fs, w, h) \<longrightarrow> m = length fs)"
    unfolding extractingAt_def by (intro exI[of _ m]) simp
next
  assume a: "snd (convertTry env opts (convertStart hk)) = Normal gif \<and>
             encoderEvents env = evs @ [Progress p]"
  obtain hk1 where t: "convertTry env opts (convertStart hk) = (hk1, Normal gif)"
    using a by (cases "convertTry env opts (convertStart hk)") simp
  obtain hk2 p2 where
    f: "foldl (onEvent (length (gifFrames gif))) (hk1, Hangs) evs = (hk2, p2)"
    by (cases "foldl (onEvent (length (gifFrames gif))) (hk1, Hangs) evs")
  show "progressNow (fst (convert env opts hk)) =
          \<lparr>stage = Encoding, progress = fadd 50 (fmul p 50),
           framesExtracted = length (gifFrames gif), totalFrames = length (gifFrames gif),
           message = EncodingPercent (mathRound (fmul p 100))\<rparr>"
    using t a f by (simp add: convert_def Let_def setProgress_fields)
qed


theorem progress_accounting_witness:
  "progressLog (fst (extractFrames sampleVideo sampleOptions initialHook)) =
     [\<lparr>stage = Extracting, progress = 25, framesExtracted = 1, totalFrames = 2,
       message = ExtractingFrame 1 2\<rparr>,
      \<lparr>stage = Extracting, progress = 50, framesExtracted = 2, totalFrames = 2,
       message = ExtractingFrame 2 2\<rparr>] \<and>
   encoderEvents (sampleVideo\<lparr>encoderEvents := [Progress (1 / 2)]\<rparr>) = [] @ [Progress (1 / 2)] \<and>
   progressNow (fst (convert (sampleVideo\<lparr>encoderEvents := [Progress (1 / 2)]\<rparr>)
                       sampleOptions initialHook)) =
     \<lparr>stage = Encoding, progress = 75, framesExtracted = 2, totalFrames = 2,
      message = EncodingPercent 50\<rparr>"
proof -
  let ?env = "sampleVideo\<lparr>encoderEvents := [Progress (1 / 2)]\<rparr>"
  let ?gif = "\<lparr>workers = 4, gifQuality = 21, gifWidth = 1, gifHeight = 1,
             transparent = TRANSPARENT_COLOR,
             gifFrames = [([10, 20, 30, 200], \<lparr>copy = True, delay = 250, dispose = 2\<rparr>),
                          ([10, 20, 30, 200], \<lparr>copy = True, delay = 250, dispose = 2\<rparr>)]\<rparr>"
  have g: "snd (convertTry ?env sampleOptions (convertStart initialHook)) = Normal ?gif"
    by (simp add: sample_eval)
  have ev: "encoderEvents ?env = [] @ [Progress (1 / 2)]" by simp
  have n: "nat \<lfloor>fmul (duration sampleVideo) (fps sampleOptions)\<rfloor> = 2"
    by (simp add: sampleVideo_def sampleOptions_def fmul_def rnd_values)
  have r: "snd (extractFrames sampleVideo sampleOptions initialHook) =
             Normal ([[10, 20, 30, 200], [10, 20, 30, 200]], 1, 1)"
    by (simp add: sample_eval)
  note pa = progress_accounting[of sampleVideo sampleOptions initialHook]
  from pa[THEN conjunct1] obtain m where
    m: "progressLog (fst (extractFrames sampleVideo sampleOptions initialHook)) =
        progressLog initialHook @
        map (\<lambda>i. \<lparr>stage = Extracting,
                   progress = fmul (fdiv (real (i + 1)) (real (nat \<lfloor>fmul (duration sampleVideo) (fps sampleOptions)\<rfloor>))) 50,
                   framesExtracted = i + 1,
                   totalFrames = nat \<lfloor>fmul (duration sampleVideo) (fps sampleOptions)\<rfloor>,
                   message = ExtractingFrame (i + 1) (nat \<lfloor>fmul (duration sampleVideo) (fps sampleOptions)\<rfloor>)\<rparr>)
          [0..<m]"
    and l: "\<forall>fs w h. snd (extractFrames sampleVideo sampleOptions initialHook) = Normal (fs, w, h)
              \<longrightarrow> m = length fs"
    by (elim exE conjE)
  from l r have m2: "m = 2" by simp
  have u: "[0..<2] = [0, 1]" by (simp add: upt_rec)
  have first: "progressLog (fst (extractFrames sampleVideo sampleOptions initialHook)) =
     [\<lparr>stage = Extracting, progress = 25, framesExtracted = 1, totalFrames = 2,
       message = ExtractingFrame 1 2\<rparr>,
      \<lparr>stage = Extracting, progress = 50, framesExtracted = 2, totalFrames = 2,
       message = ExtractingFrame 2 2\<rparr>]"
    using m unfolding m2 n u by (simp add: initialHook_def fmul_def fdiv_def rnd_values)
  from progress_accounting[of ?env sampleOptions initialHook ?gif "[]" "1 / 2"] g ev
  have second: "progressNow (fst (convert ?env sampleOptions initialHook)) =
     \<lparr>stage = Encoding, progress = 75, framesExtracted = 2, totalFrames = 2,
      message = EncodingPercent 50\<rparr>"
    by (simp add: mathRound_def fmul_def fadd_def rnd_values)
  show ?thesis using first second by simp
qed

section \<open>The order of the stages\<close>

lemma staged_sorted:
  assumes "\<forall>x\<in>set xs. x = Extracting" "\<forall>y\<in>set ys. y = Encoding"
    and "sorted_wrt stageLe zs" "set zs \<subseteq> {Encoding, Complete, Error}"
  shows "sorted_wrt stageLe (Idle # Extracting # xs @ ys @ zs)"
proof -
  have sx: "sorted_wrt stageLe xs" and sy: "sorted_wrt stageLe ys"
    using assms(1,2) constant_stages_sorted by blast+
  have z: "stageLe Extracting z \<and> stageLe Encoding z \<and> stageLe Idle z" if "z \<in> set zs" for z
  proof -
    from that assms(4) have "z = Encoding \<or> z = Complete \<or> z = Error" by blast
    then show ?thesis by (auto simp: stageLe_def)
  qed
  have xy: "stageLe x y" if "x \<in> set xs" "y \<in> set ys" for x y
  proof -
    from that assms(1,2) have "x = Extracting" "y = Encoding" by blast+
    then show ?thesis by (simp add: stageLe_def)
  qed
  have xz: "stageLe x y" if "x \<in> set xs" "y \<in> set zs" for x y
  proof -
    from that(1) assms(1) have "x = Extracting" by blast
    with z[OF that(2)] show ?thesis by simp
  qed
  have yz: "stageLe x y" if "x \<in> set ys" "y \<in> set zs" for x y
  proof -
    from that(1) assms(2) have "x = Encoding" by blast
    with z[OF that(2)] show ?thesis by simp
  qed
  have ex: "stageLe Extracting x" "stageLe Idle x" if "x \<in> set xs" for x
  proof -
    from that assms(1) have "x = Extracting" by blast
    then show "stageLe Extracting x" "stageLe Idle x" by (simp_all add: stageLe_def)
  qed
  have ey: "stageLe Extracting y" "stageLe Idle y" if "y \<in> set ys" for y
  proof -
    from that assms(2) have "y = Encoding" by blast
    then show "stageLe Extracting y" "stageLe Idle y" by (simp_all add: stageLe_def)
  qed
  have "stageLe Idle Extracting" by (simp add: stageLe_def)
  then show ?thesis
    using sx sy assms(3) z xy xz yz ex ey by (auto simp: sorted_wrt_append)
qed

lemma convert_log:
  assumes "finishedLast (encoderEvents env)"
  shows "\<exists>new. progressLog (fst (convert env opts hk)) = progressLog hk @ new \<and>
           sorted_wrt stageLe (Idle # map stage new)"
proof -
  let ?p0 = "\<lparr>stage = Extracting, progress = 0, framesExtracted = 0, totalFrames = 0,
              message = LoadingVideo\<rparr>"
  obtain hk1 r where t: "convertTry env opts (convertStart hk) = (hk1, r)"
    by (cases "convertTry env opts (convertStart hk)")
  from convertTry_log[OF t] obtain xs ys where
    l1: "progressLog hk1 = progressLog (convertStart hk) @ xs @ ys"
    and xs: "\<forall>x\<in>set xs. stage x = Extracting" and ys: "\<forall>y\<in>set ys. stage y = Encoding"
    by blast
  have l1': "progressLog hk1 = progressLog hk @ ?p0 # xs @ ys"
    using l1 by (simp add: convertStart_fields)
  have sx: "\<forall>x\<in>set (map stage xs). x = Extracting" using xs by simp
  have sy: "\<forall>y\<in>set (map stage ys). y = Encoding" using ys by simp
  obtain zs where
    fin: "progressLog (fst (convert env opts hk)) = progressLog hk1 @ zs"
    and st: "sorted_wrt stageLe (map stage zs)"
            "set (map stage zs) \<subseteq> {Encoding, Complete, Error}"
  proof (cases r)
    case (Normal gif)
    from events_log[of "length (gifFrames gif)" "(hk1, Hangs)" "encoderEvents env"]
    obtain zs where
      z: "progressLog (fst (foldl (onEvent (length (gifFrames gif))) (hk1, Hangs)
            (encoderEvents env))) = progressLog hk1 @ zs"
         "map stage zs = concat (map eventStage (encoderEvents env))"
      by auto
    have "progressLog (fst (convert env opts hk)) = progressLog hk1 @ zs"
      using t Normal z(1) by (simp add: convert_def Let_def)
    moreover have "sorted_wrt stageLe (map stage zs)"
      "set (map stage zs) \<subseteq> {Encoding, Complete, Error}"
      using finishedLast_stages[OF assms] unfolding z(2) by auto
    ultimately show ?thesis using that by blast
  next
    case (Throws e)
    let ?err = "\<lparr>stage = Error, progress = 0, framesExtracted = 0, totalFrames = 0,
                 message = ErrorMessage e\<rparr>"
    have "progressLog (fst (convert env opts hk)) = progressLog hk1 @ [?err]"
      using t Throws by (simp add: convert_def Let_def setProgress_fields)
    then show ?thesis using that[of "[?err]"] by simp
  next
    case Hangs
    have "progressLog (fst (convert env opts hk)) = progressLog hk1 @ []"
      using t Hangs by (simp add: convert_def Let_def)
    then show ?thesis using that[of "[]"] by simp
  qed
  have "sorted_wrt stageLe (Idle # Extracting # map stage xs @ map stage ys @ map stage zs)"
    by (rule staged_sorted[OF sx sy st])
  then have "sorted_wrt stageLe (Idle # map stage (?p0 # xs @ ys @ zs))" by simp
  moreover have "progressLog (fst (convert env opts hk)) = progressLog hk @ (?p0 # xs @ ys @ zs)"
    using fin l1' by simp
  ultimately show ?thesis by blast
qed

text \<open>
  Claim C7: in every run of \<open>convert\<close>, with an encoder that reports no progress
  after it has finished, the stages written follow the order \<open>idle\<close>,
  \<open>extracting\<close>, \<open>encoding\<close>, then \<open>complete\<close> or \<open>error\<close>. Starting from
  \<open>idle\<close>, every stage written is the stage written before it or a later one, and
  this holds between any two writes, not only neighbouring ones: no stage comes back
  once a later stage has been written.
\<close>

theorem stage_order:
  assumes "finishedLast (encoderEvents env)"
  shows "\<exists>new. progressLog (fst (convert env opts hk)) = progressLog hk @ new \<and>
           sorted_wrt stageLe (Idle # map stage new) \<and>
           successively stageLe (Idle # map stage new)"
proof -
  from convert_log[OF assms, of opts hk] obtain new where
    n: "progressLog (fst (convert env opts hk)) = progressLog hk @ new"
       "sorted_wrt stageLe (Idle # map stage new)"
    by blast
  from n(2) have "successively stageLe (Idle # map stage new)"
    by (rule successively_if_sorted_wrt)
  with n show ?thesis by blast
qed

theorem stage_order_witness:
  "finishedLast (encoderEvents sampleVideo) \<and>
   sorted_wrt stageLe
     (Idle # map stage (progressLog (fst (convert sampleVideo sampleOptions initialHook)))) \<and>
   map stage (progressLog (fst (convert sampleVideo sampleOptions initialHook))) =
     [Extracting, Extracting, Extracting, Encoding, Encoding, Complete]"
proof -
  have f: "finishedLast (encoderEvents sampleVideo)" by (simp add: sampleVideo_def)
  from stage_order[OF f, of sampleOptions initialHook] obtain new where
    n: "progressLog (fst (convert sampleVideo sampleOptions initialHook)) =
          progressLog initialHook @ new"
       "sorted_wrt stageLe (Idle # map stage new)"
    by (elim exE conjE)
  have "progressLog initialHook = []" by (simp add: initialHook_def)
  with n have s: "sorted_wrt stageLe
     (Idle # map stage (progressLog (fst (convert sampleVideo sampleOptions initialHook))))"
    by simp
  have l: "map stage (progressLog (fst (convert sampleVideo sampleOptions initialHook))) =
     [Extracting, Extracting, Extracting, Encoding, Encoding, Complete]"
    by (simp add: sample_eval)
  from f s l show ?thesis by simp
qed

section \<open>The encoder's configuration\<close>

lemma mathRound_round: "mathRound x = round x"
  by (simp add: mathRound_def round_def)

lemma convertTry_gif:
  assumes "snd (convertTry env opts (convertStart hk)) = Normal gif"
  shows "\<exists>fs w h. gif = configured env opts w h fs \<and>
           length fs = nat \<lfloor>fmul (duration env) (fps opts)\<rfloor> \<and>
           gifRef (fst (convertTry env opts (convertStart hk))) = Some gif"
proof -
  obtain hk1 where t: "convertTry env opts (convertStart hk) = (hk1, Normal gif)"
    using assms by (cases "convertTry env opts (convertStart hk)") simp
  from convertTry_Normal[OF t] obtain hk3 fs w h where
    e: "extractFrames env opts (loaded env (convertStart hk)) = (hk3, Normal (fs, w, h))"
    and g: "gif = configured env opts w h fs"
    and h1: "hk1 = (setProgress hk3 (encodingStarted (length fs)))\<lparr>gifRef := Some gif\<rparr>"
    by blast
  from extractFrames_logs[OF e] have "length fs = nat \<lfloor>fmul (duration env) (fps opts)\<rfloor>"
    by auto
  with g h1 t show ?thesis by auto
qed

text \<open>
  Claim C8: every frame given to the encoder has the delay
  \<open>Math.round(1000 / fps)\<close>, the quotient being the double the code computes, and
  the disposal value 2, the same for all frames of one conversion; the encoder gets as
  many frames as were extracted.
\<close>

theorem frame_delay_dispose:
  assumes "snd (convertTry env opts (convertStart hk)) = Normal gif"
  shows "(\<forall>(f, fo) \<in> set (gifFrames gif).
            delay fo = mathRound (fdiv 1000 (fps opts)) \<and>
            delay fo = round (fdiv 1000 (fps opts)) \<and> dispose fo = 2) \<and>
         length (gifFrames gif) = nat \<lfloor>fmul (duration env) (fps opts)\<rfloor> \<and>
         gifRef (fst (convertTry env opts (convertStart hk))) = Some gif"
proof -
  from convertTry_gif[OF assms] obtain fs w h where
    g: "gif = configured env opts w h fs"
    and l: "length fs = nat \<lfloor>fmul (duration env) (fps opts)\<rfloor>"
    and r: "gifRef (fst (convertTry env opts (convertStart hk))) = Some gif"
    by blast
  have "\<forall>(f, fo) \<in> set (gifFrames gif).
            delay fo = mathRound (fdiv 1000 (fps opts)) \<and>
            delay fo = round (fdiv 1000 (fps opts)) \<and> dispose fo = 2"
    unfolding g by (auto simp: configured_def mathRound_round)
  moreover have "length (gifFrames gif) = nat \<lfloor>fmul (duration env) (fps opts)\<rfloor>"
    using l unfolding g by (simp add: configured_def)
  ultimately show ?thesis using r by blast
qed

lemma sample_gif:
  "snd (convertTry sampleVideo sampleOptions (convertStart initialHook)) =
     Normal \<lparr>workers = 4, gifQuality = 21, gifWidth = 1, gifHeight = 1,
             transparent = TRANSPARENT_COLOR,
             gifFrames = [([10, 20, 30, 200], \<lparr>copy = True, delay = 250, dispose = 2\<rparr>),
                          ([10, 20, 30, 200], \<lparr>copy = True, delay = 250, dispose = 2\<rparr>)]\<rparr>"
  by (simp add: sample_eval)

theorem frame_delay_dispose_witness:
  "snd (convertTry sampleVideo sampleOptions (convertStart initialHook)) =
     Normal \<lparr>workers = 4, gifQuality = 21, gifWidth = 1, gifHeight = 1,
             transparent = TRANSPARENT_COLOR,
             gifFrames = [([10, 20, 30, 200], \<lparr>copy = True, delay = 250, dispose = 2\<rparr>),
                          ([10, 20, 30, 200], \<lparr>copy = True, delay = 250, dispose = 2\<rparr>)]\<rparr> \<and>
   mathRound (fdiv 1000 (fps sampleOptions)) = 250 \<and>
   nat \<lfloor>fmul (duration sampleVideo) (fps sampleOptions)\<rfloor> = 2"
proof -
  note t = frame_delay_dispose[OF sample_gif]
  from t have "length [([10, 20, 30, 200 :: byte], \<lparr>copy = True, delay = 250, dispose = 2\<rparr>),
                       ([10, 20, 30, 200], \<lparr>copy = True, delay = 250, dispose = 2\<rparr>)] =
               nat \<lfloor>fmul (duration sampleVideo) (fps sampleOptions)\<rfloor>"
    by simp
  then have n: "nat \<lfloor>fmul (duration sampleVideo) (fps sampleOptions)\<rfloor> = 2" by simp
  from t have "mathRound (fdiv 1000 (fps sampleOptions)) = 250" by simp
  with n sample_gif show ?thesis by simp
qed






section \<open>Failures\<close>

text \<open>
  A throw inside the \<open>try\<close> block reaches the \<open>catch\<close> block: the error state is
  written and \<open>isConverting\<close> is cleared.
\<close>

lemma convert_caught:
  assumes "convertTry env opts (convertStart hk) = (hk1, Throws e)"
  shows "snd (convert env opts hk) = Throws e"
    "progressNow (fst (convert env opts hk)) =
       \<lparr>stage = Error, progress = 0, framesExtracted = 0, totalFrames = 0,
        message = ErrorMessage e\<rparr>"
    "\<not> isConverting (fst (convert env opts hk))"
  using assms by (simp_all add: convert_def Let_def setProgress_def)

text \<open>
  Claim C10 says that every failure of \<open>convert\<close>, cancellation included, leaves
  the progress state at stage \<open>error\<close> with progress and both frame counts 0. The
  sample conversion cancelled while the encoder runs fails with the cancellation error,
  but the promise of the encoding was returned without being awaited, so the
  \<open>catch\<close> block is not run: the progress state stays at stage \<open>encoding\<close> with
  progress 75 and both frame counts 2, and \<open>isConverting\<close> stays set. Cancelled
  during its first seek, the same conversion does reach the \<open>catch\<close> block.
\<close>

theorem cancelled_encoding_keeps_stage:
  "snd (convert cancelledWhileEncoding sampleOptions initialHook) = Throws ConversionCancelled \<and>
   progressNow (fst (convert cancelledWhileEncoding sampleOptions initialHook)) =
     \<lparr>stage = Encoding, progress = 75, framesExtracted = 2, totalFrames = 2,
      message = EncodingPercent 50\<rparr> \<and>
   isConverting (fst (convert cancelledWhileEncoding sampleOptions initialHook)) \<and>
   snd (convert cancelledWhileSeeking sampleOptions initialHook) = Throws ConversionCancelled \<and>
   progressNow (fst (convert cancelledWhileSeeking sampleOptions initialHook)) =
     \<lparr>stage = Error, progress = 0, framesExtracted = 0, totalFrames = 0,
      message = ErrorMessage ConversionCancelled\<rparr> \<and>
   \<not> isConverting (fst (convert cancelledWhileSeeking sampleOptions initialHook))"
  by (simp add: sample_eval)

end
